theory Spec2Isabelle
  imports Main
begin

section \<open>Rabin-Karp substring matching: the functions of rkgrep.c\<close>

text \<open>
  Conventions of the embedding.
  \<^item> A C string is the \<open>string\<close> of its bytes before the terminating NUL; \<open>strlen\<close> is
    \<open>length\<close>. Reading index \<open>length s\<close> yields the terminator, reading any later index
    leaves the object and is the fault \<open>Out_Of_Bounds\<close>.
  \<^item> \<open>long long\<close> values are \<open>int\<close>. Every product formed by the code has factors of
    absolute value below \<open>PRIME < 2 ^ 30\<close>, so no 64-bit operation overflows.
  \<^item> Plain \<open>char\<close> is signed or unsigned depending on the C implementation. The flag
    \<open>sg\<close> of the functions that convert a \<open>char\<close> to \<open>long long\<close> says which: \<open>True\<close> is a
    signed \<open>char\<close> (the x86-64 ABI), \<open>False\<close> an unsigned one.
  \<^item> \<open>int\<close> loop counters and lengths are \<open>nat\<close>; theorems that depend on a length
    fitting an \<open>int\<close> say so. \<open>size_t\<close> arithmetic wraps modulo \<open>2 ^ 64\<close>.
  \<^item> The \<open>int\<close> behind \<open>first_match_ind\<close> is passed in and returned.
\<close>

datatype fault = Out_Of_Bounds

definition PRIME :: int where
  "PRIME = 961748941"

text \<open>The operator \<open>%\<close> of C: the remainder of the division that truncates towards zero.\<close>

definition c_rem :: "int \<Rightarrow> int \<Rightarrow> int" where
  "c_rem a b = sgn a * (\<bar>a\<bar> mod \<bar>b\<bar>)"

definition madd :: "int \<Rightarrow> int \<Rightarrow> int" where
  "madd a b = c_rem (a + b) PRIME"

definition msub :: "int \<Rightarrow> int \<Rightarrow> int" where
  "msub a b = (if a > b then a - b else a + PRIME - b)"

definition mmul :: "int \<Rightarrow> int \<Rightarrow> int" where
  "mmul a b = c_rem (a * b) PRIME"

text \<open>The value of a \<open>char\<close> after its conversion to \<open>long long\<close>.\<close>

definition char_val :: "bool \<Rightarrow> char \<Rightarrow> int" where
  "char_val sg c = (if sg \<and> 128 \<le> (of_char c :: int) then of_char c - 256 else of_char c)"

text \<open>\<open>s[i]\<close> for a NUL-terminated string \<open>s\<close>.\<close>

definition c_read :: "string \<Rightarrow> nat \<Rightarrow> char option" where
  "c_read s i =
     (if i < length s then Some (s ! i)
      else if i = length s then Some (CHR 0x00)
      else None)"

text \<open>\<open>a - b\<close> and \<open>a - b + 1\<close> on \<open>size_t\<close>, as in \<open>strlen(doc) - m\<close>.\<close>

definition size_t_sub :: "nat \<Rightarrow> nat \<Rightarrow> nat" where
  "size_t_sub a b = nat ((int a - int b) mod 2 ^ 64)"

definition size_t_sub_plus1 :: "nat \<Rightarrow> nat \<Rightarrow> nat" where
  "size_t_sub_plus1 a b = nat ((int a - int b + 1) mod 2 ^ 64)"

subsection \<open>naive_substring_match\<close>

text \<open>The inner loop over \<open>j\<close>: \<open>Inr True\<close> when it ends with \<open>equals\<close> still 1.\<close>

function naive_equals :: "string \<Rightarrow> string \<Rightarrow> nat \<Rightarrow> nat \<Rightarrow> nat \<Rightarrow> fault + bool" where
  "naive_equals pattern doc m i j =
     (if j < m then
        (case (c_read pattern j, c_read doc (i + j)) of
           (Some a, Some b) \<Rightarrow>
             if a \<noteq> b then Inr False else naive_equals pattern doc m i (Suc j)
         | _ \<Rightarrow> Inl Out_Of_Bounds)
      else Inr True)"
  by pat_completeness auto
termination
  by (relation "measure (\<lambda>(pattern, doc, m, i, j). m - j)") auto

text \<open>The outer loop; \<open>doc_len - m\<close> is a subtraction of \<open>int\<close>.\<close>

function naive_loop :: "string \<Rightarrow> string \<Rightarrow> nat \<Rightarrow> nat \<Rightarrow> nat \<Rightarrow> int \<Rightarrow> fault + (nat \<times> int)" where
  "naive_loop pattern doc m i match_count fmi =
     (if int i < int (length doc) - int m then
        (case naive_equals pattern doc m i 0 of
           Inl e \<Rightarrow> Inl e
         | Inr equals \<Rightarrow>
             if equals then
               naive_loop pattern doc m (Suc i) (match_count + 1)
                 (if match_count = 0 then int i else fmi)
             else naive_loop pattern doc m (Suc i) match_count fmi)
      else Inr (match_count, fmi))"
  by pat_completeness auto
termination
  by (relation "measure (\<lambda>(pattern, doc, m, i, match_count, fmi). length doc - i)") auto

definition naive_substring_match :: "string \<Rightarrow> string \<Rightarrow> int \<Rightarrow> fault + (nat \<times> int)" where
  "naive_substring_match pattern doc fmi = naive_loop pattern doc (length pattern) 0 0 fmi"

subsection \<open>rkhash_init and rkhash_next\<close>

text \<open>
  The loop of \<open>rkhash_init\<close>, with counter \<open>k = i + 1\<close> running from \<open>m\<close> down to 0.
  The result is the pair of the returned sum and the value left in \<open>*h\<close>.
\<close>

fun rkhash_init_loop :: "bool \<Rightarrow> string \<Rightarrow> nat \<Rightarrow> int \<Rightarrow> int \<Rightarrow> fault + (int \<times> int)" where
  "rkhash_init_loop sg charbuf 0 h sum_acc = Inr (sum_acc, h)"
| "rkhash_init_loop sg charbuf (Suc i) h sum_acc =
     (case c_read charbuf i of
        None \<Rightarrow> Inl Out_Of_Bounds
      | Some c \<Rightarrow>
          rkhash_init_loop sg charbuf i (mmul h 256) (madd (mmul h (char_val sg c)) sum_acc))"

definition rkhash_init :: "bool \<Rightarrow> string \<Rightarrow> nat \<Rightarrow> fault + (int \<times> int)" where
  "rkhash_init sg charbuf m = rkhash_init_loop sg charbuf m 1 0"

definition rkhash_next :: "bool \<Rightarrow> int \<Rightarrow> int \<Rightarrow> char \<Rightarrow> char \<Rightarrow> int" where
  "rkhash_next sg curr_hash h leftmost rightmost =
     madd (msub (mmul curr_hash 256) (mmul (char_val sg leftmost) h)) (char_val sg rightmost)"


subsection \<open>rk_substring_match\<close>

text \<open>The verification loop over \<open>j\<close>: \<open>Inr True\<close> when it ends with \<open>ver\<close> still 1.\<close>

function rk_verify :: "string \<Rightarrow> string \<Rightarrow> nat \<Rightarrow> nat \<Rightarrow> nat \<Rightarrow> fault + bool" where
  "rk_verify pattern doc m i j =
     (if j < i + m then
        (case (c_read pattern (j - i), c_read doc j) of
           (Some a, Some b) \<Rightarrow>
             if a \<noteq> b then Inr False else rk_verify pattern doc m i (Suc j)
         | _ \<Rightarrow> Inl Out_Of_Bounds)
      else Inr True)"
  by pat_completeness auto
termination
  by (relation "measure (\<lambda>(pattern, doc, m, i, j). i + m - j)") auto

text \<open>
  The scanning loop. Its bound \<open>strlen(doc) - m\<close> is computed on \<open>size_t\<close>, and the
  comparison with \<open>i\<close> is unsigned.
\<close>

function rk_loop ::
  "bool \<Rightarrow> string \<Rightarrow> string \<Rightarrow> nat \<Rightarrow> int \<Rightarrow> int \<Rightarrow> nat \<Rightarrow> int \<Rightarrow> nat \<Rightarrow> int \<Rightarrow> fault + (nat \<times> int)" where
  "rk_loop sg pattern doc m h pattern_hash i curr_hash sum_matches fmi =
     (if i < size_t_sub (length doc) m then
        (case (if curr_hash = pattern_hash then rk_verify pattern doc m i i else Inr False) of
           Inl e \<Rightarrow> Inl e
         | Inr ver \<Rightarrow>
             (case (c_read doc i, c_read doc (i + m)) of
                (Some l, Some r) \<Rightarrow>
                  rk_loop sg pattern doc m h pattern_hash (Suc i) (rkhash_next sg curr_hash h l r)
                    (if ver then sum_matches + 1 else sum_matches)
                    (if ver then int i else fmi)
              | _ \<Rightarrow> Inl Out_Of_Bounds))
      else Inr (sum_matches, fmi))"
  by pat_completeness auto
termination
  by (relation "measure (\<lambda>(sg, pattern, doc, m, h, pattern_hash, i, curr_hash, sum_matches, fmi).
        Suc (length doc) - i)")
    (auto simp: c_read_def split: if_splits)

definition rk_substring_match :: "bool \<Rightarrow> string \<Rightarrow> string \<Rightarrow> int \<Rightarrow> fault + (nat \<times> int)" where
  "rk_substring_match sg pattern doc fmi =
     (case rkhash_init sg doc (length pattern) of
        Inl e \<Rightarrow> Inl e
      | Inr (curr_hash, h) \<Rightarrow>
          (case rkhash_init sg pattern (length pattern) of
             Inl e \<Rightarrow> Inl e
           | Inr (pattern_hash, h_decoy) \<Rightarrow>
               rk_loop sg pattern doc (length pattern) h pattern_hash 0 curr_hash 0 fmi))"

subsection \<open>The Bloom filter\<close>

text \<open>
  Modelled from the spec: \<open>bloom_filter\<close>, declared in bloom.h, is not among the sources.
  The spec fixes only its membership contract, so the filter is the list of the values
  inserted so far.
\<close>

type_synonym bloom_filter = "int list"

text \<open>
  Modelled from the spec: \<open>bloom_init\<close> of bloom.h is not among the sources; it creates an
  empty filter sized for the given number of elements. The spec lets the creation fail
  on a size that is not positive; the theorems about a filter ask for a positive size.
\<close>

definition bloom_init :: "int \<Rightarrow> bloom_filter" where
  "bloom_init bloom_size = []"

text \<open>
  Modelled from the spec: \<open>bloom_add\<close> of bloom.h is not among the sources; insertion is
  unconditional and nothing is ever removed.
\<close>

definition bloom_add :: "bloom_filter \<Rightarrow> int \<Rightarrow> bloom_filter" where
  "bloom_add bf x = x # bf"

text \<open>
  Modelled from the spec: \<open>bloom_query\<close> of bloom.h is not among the sources; it answers
  true for every inserted value and may answer true for others. The false positives of
  the bit array are the parameter \<open>fp\<close>.
\<close>

definition bloom_query :: "(bloom_filter \<Rightarrow> int \<Rightarrow> bool) \<Rightarrow> bloom_filter \<Rightarrow> int \<Rightarrow> bool" where
  "bloom_query fp bf x = (x \<in> set bf \<or> fp bf x)"


subsection \<open>rk_create_doc_bloom and rk_substring_match_using_bloom\<close>

function bloom_loop ::
  "bool \<Rightarrow> string \<Rightarrow> nat \<Rightarrow> int \<Rightarrow> nat \<Rightarrow> int \<Rightarrow> bloom_filter \<Rightarrow> fault + bloom_filter" where
  "bloom_loop sg doc m h i curr_hash bf =
     (if i < size_t_sub_plus1 (length doc) m then
        (case (c_read doc i, c_read doc (i + m)) of
           (Some l, Some r) \<Rightarrow>
             bloom_loop sg doc m h (Suc i) (rkhash_next sg curr_hash h l r) (bloom_add bf curr_hash)
         | _ \<Rightarrow> Inl Out_Of_Bounds)
      else Inr bf)"
  by pat_completeness auto
termination
  by (relation "measure (\<lambda>(sg, doc, m, h, i, curr_hash, bf). Suc (length doc) - i)")
    (auto simp: c_read_def split: if_splits)

definition rk_create_doc_bloom :: "bool \<Rightarrow> nat \<Rightarrow> string \<Rightarrow> int \<Rightarrow> fault + bloom_filter" where
  "rk_create_doc_bloom sg m doc bloom_size =
     (case rkhash_init sg doc m of
        Inl e \<Rightarrow> Inl e
      | Inr (curr_hash, h) \<Rightarrow> bloom_loop sg doc m h 0 curr_hash (bloom_init bloom_size))"

text \<open>
  The first component of the result is the value returned: \<open>None\<close> when control reaches
  the closing brace of the function without a \<open>return\<close> statement, so that the caller
  receives no value.
\<close>

definition rk_substring_match_using_bloom ::
  "(bloom_filter \<Rightarrow> int \<Rightarrow> bool) \<Rightarrow> bool \<Rightarrow> string \<Rightarrow> string \<Rightarrow> bloom_filter \<Rightarrow> int
     \<Rightarrow> fault + (nat option \<times> int)" where
  "rk_substring_match_using_bloom fp sg pattern doc bf fmi =
     (case rkhash_init sg pattern (length pattern) of
        Inl e \<Rightarrow> Inl e
      | Inr (pattern_hash, h) \<Rightarrow>
          if bloom_query fp bf pattern_hash then
            (case rk_substring_match sg pattern doc fmi of
               Inl e \<Rightarrow> Inl e
             | Inr (sum_matches, fmi') \<Rightarrow> Inr (None, fmi'))
          else Inr (Some 0, fmi))"

text \<open>The loops are unfolded one round at a time, on demand.\<close>

declare naive_equals.simps [simp del] naive_loop.simps [simp del] rk_verify.simps [simp del]
  rk_loop.simps [simp del] bloom_loop.simps [simp del]

subsection \<open>The hash as the spec words it\<close>

text \<open>
  The spec's formula for the hash of a window: the bytes as unsigned magnitudes, the
  sum of \<open>window[i] * 256 ^ (m - 1 - i)\<close>, modulo \<open>PRIME\<close>.
\<close>

definition horner_hash :: "string \<Rightarrow> int" where
  "horner_hash w = (\<Sum>i<length w. of_char (w ! i) * 256 ^ (length w - 1 - i)) mod PRIME"

text \<open>The same number by recursion on the window, most significant byte first.\<close>

fun window_value :: "string \<Rightarrow> int" where
  "window_value [] = 0"
| "window_value (c # w) = of_char c * 256 ^ length w + window_value w"

text \<open>
  The inputs on which a \<open>char\<close> converts to its unsigned magnitude: any bytes where plain
  \<open>char\<close> is unsigned, bytes below 128 where it is signed.
\<close>

definition plain_bytes :: "bool \<Rightarrow> string \<Rightarrow> bool" where
  "plain_bytes sg w = (\<not> sg \<or> (\<forall>c \<in> set w. (of_char c :: nat) < 128))"

section \<open>Arithmetic modulo PRIME\<close>

lemmas rk_unfold =
  rk_substring_match_def naive_substring_match_def rkhash_init_def rkhash_next_def
  naive_equals.simps naive_loop.simps rk_verify.simps rk_loop.simps
  c_read_def char_val_def madd_def mmul_def msub_def c_rem_def PRIME_def
  size_t_sub_def size_t_sub_plus1_def

lemma PRIME_pos: "0 < PRIME"
  by (simp add: PRIME_def)

lemma of_char_int_bounds: "0 \<le> (of_char c :: int) \<and> (of_char c :: int) < 256"
proof -
  have "(of_char c :: int) = int (of_char c)" by (simp add: of_nat_of_char)
  moreover have "(of_char c :: nat) < 256" by simp
  ultimately show ?thesis by linarith
qed

lemma char_val_bounds: "- 128 \<le> char_val sg c \<and> char_val sg c < 256"
  using of_char_int_bounds [of c] by (auto simp: char_val_def)

lemma c_rem_nonneg: "0 \<le> a \<Longrightarrow> c_rem a PRIME = a mod PRIME"
  by (cases "a = 0") (simp_all add: c_rem_def PRIME_def)

lemma c_rem_small: "\<bar>a\<bar> < PRIME \<Longrightarrow> c_rem a PRIME = a"
  by (cases "a = 0") (auto simp: c_rem_def PRIME_def sgn_if)

lemma c_rem_bound: "\<bar>c_rem a PRIME\<bar> < PRIME"
proof -
  have "\<bar>a\<bar> mod PRIME < PRIME" "0 \<le> \<bar>a\<bar> mod PRIME"
    using PRIME_pos by simp_all
  then show ?thesis
    using PRIME_pos by (auto simp: c_rem_def sgn_if abs_mult)
qed

lemma mmul_nonneg: "0 \<le> a \<Longrightarrow> 0 \<le> b \<Longrightarrow> mmul a b = (a * b) mod PRIME"
  by (simp add: mmul_def c_rem_nonneg)

lemma madd_nonneg: "0 \<le> a + b \<Longrightarrow> madd a b = (a + b) mod PRIME"
  by (simp add: madd_def c_rem_nonneg)

text \<open>Away from the diagonal \<open>msub\<close> is the subtraction modulo \<open>PRIME\<close>.\<close>

lemma msub_distinct:
  assumes "0 \<le> a" "a < PRIME" "0 \<le> b" "b < PRIME" "a \<noteq> b"
  shows "msub a b = (a - b) mod PRIME"
proof (cases "a > b")
  case True
  with assms show ?thesis by (simp add: msub_def)
next
  case False
  with assms have "0 \<le> a + PRIME - b" "a + PRIME - b < PRIME" by simp_all
  then have "(a + PRIME - b) mod PRIME = a + PRIME - b" by simp
  moreover have "a + PRIME - b = (a - b) + PRIME" by simp
  ultimately have "(a - b) mod PRIME = a + PRIME - b"
    by (metis mod_add_self2)
  with False show ?thesis by (simp add: msub_def)
qed

lemma rkhash_next_nonneg:
  assumes "0 \<le> curr_hash" "0 \<le> h" "0 \<le> char_val sg l" "0 \<le> char_val sg r"
  shows "rkhash_next sg curr_hash h l r =
    (curr_hash * 256 - char_val sg l * h + char_val sg r) mod PRIME"
proof -
  let ?a = "(curr_hash * 256) mod PRIME" and ?b = "(char_val sg l * h) mod PRIME"
  have a: "mmul curr_hash 256 = ?a" using assms by (simp add: mmul_nonneg)
  have b: "mmul (char_val sg l) h = ?b" using assms by (simp add: mmul_nonneg)
  have ar: "0 \<le> ?a" "?b < PRIME" using PRIME_pos by simp_all
  have pos: "0 \<le> msub ?a ?b" using ar by (simp add: msub_def)
  have "madd (msub ?a ?b) (char_val sg r) = (msub ?a ?b + char_val sg r) mod PRIME"
    using pos assms by (simp add: madd_nonneg)
  also have "\<dots> = (?a - ?b + char_val sg r) mod PRIME"
  proof (cases "?a > ?b")
    case True
    then show ?thesis by (simp add: msub_def)
  next
    case False
    have "?a + PRIME - ?b + char_val sg r = (?a - ?b + char_val sg r) + PRIME" by simp
    then have "(?a + PRIME - ?b + char_val sg r) mod PRIME = (?a - ?b + char_val sg r) mod PRIME"
      by (simp only: mod_add_self2)
    with False show ?thesis by (simp add: msub_def)
  qed
  also have "\<dots> = (curr_hash * 256 - char_val sg l * h + char_val sg r) mod PRIME"
  proof -
    have "(?a - ?b) mod PRIME = (curr_hash * 256 - char_val sg l * h) mod PRIME"
      by (simp add: mod_simps)
    then show ?thesis by (rule mod_add_cong) (rule refl)
  qed
  finally show ?thesis by (simp add: rkhash_next_def a b)
qed

section \<open>The hash of a window\<close>

lemma window_value_snoc: "window_value (w @ [c]) = 256 * window_value w + of_char c"
  by (induction w) (simp_all add: algebra_simps)

lemma window_value_sum:
  "window_value w = (\<Sum>i<length w. of_char (w ! i) * 256 ^ (length w - 1 - i))"
proof (induction w)
  case Nil
  then show ?case by simp
next
  case (Cons c w)
  have "(\<Sum>i<length (c # w). of_char ((c # w) ! i) * (256::int) ^ (length (c # w) - 1 - i)) =
      of_char c * 256 ^ length w + (\<Sum>i<length w. of_char (w ! i) * 256 ^ (length w - 1 - i))"
    by (simp add: sum.lessThan_Suc_shift del: sum.lessThan_Suc)
  with Cons show ?case by simp
qed

lemma horner_hash_window_value: "horner_hash w = window_value w mod PRIME"
  by (simp add: horner_hash_def window_value_sum)

lemma plain_bytes_char_val:
  assumes "plain_bytes sg w" "c \<in> set w"
  shows "char_val sg c = of_char c"
proof -
  have "(of_char c :: int) = int (of_char c)" by (simp add: of_nat_of_char)
  with assms show ?thesis by (auto simp: plain_bytes_def char_val_def)
qed

lemma plain_bytes_drop: "plain_bytes sg w \<Longrightarrow> plain_bytes sg (drop i w)"
  by (auto simp: plain_bytes_def dest: in_set_dropD)

lemma plain_bytes_take: "plain_bytes sg w \<Longrightarrow> plain_bytes sg (take i w)"
  by (auto simp: plain_bytes_def dest: in_set_takeD)

text \<open>The invariant of the loop of \<open>rkhash_init\<close>, on bytes that convert unchanged.\<close>

lemma rkhash_init_loop_value:
  assumes "plain_bytes sg buf" "k \<le> length buf"
    and "0 \<le> h" "0 \<le> acc" "acc < PRIME" "h < PRIME"
  shows "rkhash_init_loop sg buf k h acc =
    Inr ((acc + h * window_value (take k buf)) mod PRIME, (h * 256 ^ k) mod PRIME)"
  using assms(2-)
proof (induction k arbitrary: h acc)
  case 0
  then show ?case by simp
next
  case (Suc k)
  let ?c = "buf ! k"
  let ?v = "(of_char ?c :: int)"
  have k: "k < length buf" using Suc.prems by simp
  then have cv: "char_val sg ?c = ?v"
    using assms(1) by (simp add: plain_bytes_char_val)
  have v0: "0 \<le> ?v" using of_char_int_bounds by simp
  have rd: "c_read buf k = Some ?c" using k by (simp add: c_read_def)
  have h': "mmul h 256 = (h * 256) mod PRIME" using Suc.prems by (simp add: mmul_nonneg)
  have m1: "mmul h ?v = (h * ?v) mod PRIME" using Suc.prems v0 by (simp add: mmul_nonneg)
  have m1pos: "0 \<le> (h * ?v) mod PRIME" using PRIME_pos by simp
  have acc': "madd (mmul h ?v) acc = ((h * ?v) mod PRIME + acc) mod PRIME"
    using m1pos Suc.prems by (simp add: m1 madd_nonneg)
  have tk: "take (Suc k) buf = take k buf @ [?c]"
    using k by (simp add: take_Suc_conv_app_nth)
  have "rkhash_init_loop sg buf (Suc k) h acc =
      rkhash_init_loop sg buf k ((h * 256) mod PRIME) (((h * ?v) mod PRIME + acc) mod PRIME)"
    by (simp add: rd cv h' acc')
  also have "\<dots> = Inr (((((h * ?v) mod PRIME + acc) mod PRIME) +
        ((h * 256) mod PRIME) * window_value (take k buf)) mod PRIME,
        (((h * 256) mod PRIME) * 256 ^ k) mod PRIME)"
    using k PRIME_pos by (intro Suc.IH) simp_all
  also have "((((h * ?v) mod PRIME + acc) mod PRIME) +
        ((h * 256) mod PRIME) * window_value (take k buf)) mod PRIME =
      (h * ?v + acc + h * 256 * window_value (take k buf)) mod PRIME"
  proof -
    have "((h * ?v) mod PRIME + acc) mod PRIME mod PRIME = (h * ?v + acc) mod PRIME"
      by (simp add: mod_simps)
    moreover have "(((h * 256) mod PRIME) * window_value (take k buf)) mod PRIME =
        (h * 256 * window_value (take k buf)) mod PRIME"
      by (rule mod_mult_left_eq)
    ultimately show ?thesis by (rule mod_add_cong)
  qed
  also have "h * ?v + acc + h * 256 * window_value (take k buf) =
      acc + h * window_value (take (Suc k) buf)"
    by (simp add: tk window_value_snoc algebra_simps)
  also have "(((h * 256) mod PRIME) * 256 ^ k) mod PRIME = (h * 256 ^ Suc k) mod PRIME"
    by (simp add: mod_simps algebra_simps)
  finally show ?case .
qed

lemma rkhash_init_value:
  assumes "plain_bytes sg buf" "m \<le> length buf"
  shows "rkhash_init sg buf m = Inr (horner_hash (take m buf), 256 ^ m mod PRIME)"
proof -
  have "rkhash_init_loop sg buf m 1 0 =
      Inr ((0 + 1 * window_value (take m buf)) mod PRIME, (1 * 256 ^ m) mod PRIME)"
    using assms by (intro rkhash_init_loop_value) (simp_all add: PRIME_def)
  then show ?thesis by (simp add: rkhash_init_def horner_hash_window_value)
qed

text \<open>Sliding the window by one byte.\<close>

lemma window_value_shift:
  assumes "i + m < length doc"
  shows "window_value (take m (drop (Suc i) doc)) =
    256 * window_value (take m (drop i doc)) - of_char (doc ! i) * 256 ^ m + of_char (doc ! (i + m))"
proof -
  have i: "i < length doc" using assms by simp
  have "take (Suc m) (drop i doc) = doc ! i # take m (drop (Suc i) doc)"
    using i by (simp add: Cons_nth_drop_Suc [symmetric])
  moreover have "take (Suc m) (drop i doc) = take m (drop i doc) @ [doc ! (i + m)]"
    using assms by (simp add: take_Suc_conv_app_nth)
  ultimately have "window_value (doc ! i # take m (drop (Suc i) doc)) =
      window_value (take m (drop i doc) @ [doc ! (i + m)])"
    by simp
  moreover have "length (take m (drop (Suc i) doc)) = m" using assms by simp
  ultimately show ?thesis by (simp add: window_value_snoc)
qed

lemma rkhash_next_window:
  assumes "plain_bytes sg doc" "i + m < length doc"
  shows "rkhash_next sg (horner_hash (take m (drop i doc))) (256 ^ m mod PRIME) (doc ! i) (doc ! (i + m)) =
    horner_hash (take m (drop (Suc i) doc))"
proof -
  let ?w = "window_value (take m (drop i doc))"
  let ?l = "(of_char (doc ! i) :: int)" and ?r = "(of_char (doc ! (i + m)) :: int)"
  have l: "char_val sg (doc ! i) = ?l" and r: "char_val sg (doc ! (i + m)) = ?r"
    using assms by (simp_all add: plain_bytes_char_val)
  have "rkhash_next sg (?w mod PRIME) (256 ^ m mod PRIME) (doc ! i) (doc ! (i + m)) =
      ((?w mod PRIME) * 256 - ?l * (256 ^ m mod PRIME) + ?r) mod PRIME"
    using PRIME_pos of_char_int_bounds by (subst rkhash_next_nonneg) (simp_all add: l r)
  also have "\<dots> = (?w * 256 - ?l * 256 ^ m + ?r) mod PRIME"
  proof -
    have "((?w mod PRIME) * 256) mod PRIME = (?w * 256) mod PRIME"
      by (rule mod_mult_left_eq)
    moreover have "(?l * (256 ^ m mod PRIME)) mod PRIME = (?l * 256 ^ m) mod PRIME"
      by (rule mod_mult_right_eq)
    ultimately have "((?w mod PRIME) * 256 - ?l * (256 ^ m mod PRIME)) mod PRIME =
        (?w * 256 - ?l * 256 ^ m) mod PRIME"
      by (rule mod_diff_cong)
    then show ?thesis by (rule mod_add_cong) (rule refl)
  qed
  also have "?w * 256 - ?l * 256 ^ m + ?r = window_value (take m (drop (Suc i) doc))"
    using assms(2) by (simp add: window_value_shift)
  finally show ?thesis by (simp add: horner_hash_window_value)
qed


section \<open>The scanning loops\<close>

lemma size_t_sub_zero:
  assumes "n < 2 ^ 31"
  shows "size_t_sub n 0 = n"
proof -
  have "n < 2147483648" using assms by simp
  then have "int n < 18446744073709551616" by linarith
  then have "int n mod 18446744073709551616 = int n"
    by (intro mod_pos_pos_trivial) simp_all
  then show ?thesis by (simp add: size_t_sub_def)
qed


lemma c_read_in: "i < length s \<Longrightarrow> c_read s i = Some (s ! i)"
  by (simp add: c_read_def)

lemma c_read_le: "i \<le> length s \<Longrightarrow> \<exists>c. c_read s i = Some c"
  by (simp add: c_read_def)

text \<open>With an empty pattern the hash stays 0: the byte subtracted is the byte added.\<close>

lemma rkhash_next_same_byte: "rkhash_next sg 0 1 c c = 0"
proof -
  let ?v = "char_val sg c"
  have b: "\<bar>?v\<bar> < PRIME" using char_val_bounds [of sg c] by (simp add: PRIME_def abs_less_iff)
  have m0: "mmul 0 256 = 0" by (simp add: mmul_def c_rem_def)
  have m1: "mmul ?v 1 = ?v" using b by (simp add: mmul_def c_rem_small)
  have "madd (msub 0 ?v) ?v = 0"
    by (simp add: madd_def msub_def c_rem_def PRIME_def)
  then show ?thesis by (simp add: rkhash_next_def m0 m1)
qed

lemma rk_verify_empty: "rk_verify pattern doc 0 i i = Inr True"
  by (subst rk_verify.simps) simp

lemma rk_loop_empty_pattern:
  assumes "length doc < 2 ^ 31" "i \<le> length doc"
  shows "rk_loop sg [] doc 0 1 0 i 0 cnt fmi =
    Inr (cnt + (length doc - i), if i < length doc then int (length doc) - 1 else fmi)"
  using assms(2)
proof (induction "length doc - i" arbitrary: i cnt fmi)
  case 0
  then have "\<not> i < size_t_sub (length doc) 0"
    using assms(1) by (simp add: size_t_sub_zero)
  then show ?case
    using 0 by (subst rk_loop.simps) simp
next
  case (Suc d)
  then have lt: "i < length doc" by simp
  then have cond: "i < size_t_sub (length doc) 0"
    using assms(1) by (simp add: size_t_sub_zero)
  have rd: "c_read doc i = Some (doc ! i)" using lt by (rule c_read_in)
  have step: "rk_loop sg [] doc 0 1 0 i 0 cnt fmi =
      rk_loop sg [] doc 0 1 0 (Suc i) 0 (cnt + 1) (int i)"
    using cond by (subst rk_loop.simps) (simp add: rd rkhash_next_same_byte rk_verify_empty)
  have "rk_loop sg [] doc 0 1 0 (Suc i) 0 (cnt + 1) (int i) =
      Inr (cnt + 1 + (length doc - Suc i),
           if Suc i < length doc then int (length doc) - 1 else int i)"
    using Suc lt by (intro Suc.hyps) simp_all
  also have "\<dots> = Inr (cnt + (length doc - i), int (length doc) - 1)"
    using lt by auto
  finally show ?case using step lt by simp
qed



section \<open>What the two matchers compute\<close>

lemma fault_eq: "(e :: fault) = Out_Of_Bounds"
  by (cases e) simp

lemma rkhash_init_loop_total:
  "k \<le> Suc (length buf) \<Longrightarrow> \<exists>v g. rkhash_init_loop sg buf k h acc = Inr (v, g)"
proof (induction k arbitrary: h acc)
  case 0
  then show ?case by simp
next
  case (Suc k)
  then have "k \<le> length buf" by simp
  then obtain c where "c_read buf k = Some c" using c_read_le by blast
  with Suc show ?case by simp
qed

lemma rkhash_init_total:
  "m \<le> Suc (length buf) \<Longrightarrow> \<exists>v g. rkhash_init sg buf m = Inr (v, g)"
  unfolding rkhash_init_def by (rule rkhash_init_loop_total)

lemma rkhash_init_beyond:
  assumes "Suc (length buf) < m"
  shows "rkhash_init sg buf m = Inl Out_Of_Bounds"
proof -
  obtain k where m: "m = Suc k" using assms by (cases m) simp_all
  with assms have "c_read buf k = None" by (simp add: c_read_def)
  then show ?thesis by (simp add: rkhash_init_def m)
qed

text \<open>The verification loops compare the pattern with the window byte by byte.\<close>

lemma rk_verify_value:
  assumes "i + length pattern \<le> length doc" "i \<le> j" "j \<le> i + length pattern"
  shows "rk_verify pattern doc (length pattern) i j =
    Inr (drop (j - i) pattern = take (i + length pattern - j) (drop j doc))"
  using assms(2,3)
proof (induction "i + length pattern - j" arbitrary: j)
  case 0
  then have "j = i + length pattern" by simp
  then show ?case by (subst rk_verify.simps) simp
next
  case (Suc d)
  then have lt: "j < i + length pattern" by simp
  then have jp: "j - i < length pattern" and jd: "j < length doc"
    using Suc.prems assms(1) by simp_all
  have rd: "c_read pattern (j - i) = Some (pattern ! (j - i))" "c_read doc j = Some (doc ! j)"
    using jp jd by (simp_all add: c_read_in)
  have dp: "drop (j - i) pattern = pattern ! (j - i) # drop (Suc j - i) pattern"
    using jp Suc.prems by (simp add: Cons_nth_drop_Suc Suc_diff_le)
  have td: "take (i + length pattern - j) (drop j doc) =
      doc ! j # take (i + length pattern - Suc j) (drop (Suc j) doc)"
  proof -
    have "i + length pattern - j = Suc (i + length pattern - Suc j)" using lt by simp
    moreover have "drop j doc = doc ! j # drop (Suc j) doc"
      using jd by (simp add: Cons_nth_drop_Suc)
    ultimately show ?thesis by simp
  qed
  show ?case
  proof (cases "pattern ! (j - i) = doc ! j")
    case True
    have "rk_verify pattern doc (length pattern) i j =
        rk_verify pattern doc (length pattern) i (Suc j)"
      using lt True by (subst rk_verify.simps) (simp add: rd)
    also have "\<dots> = Inr (drop (Suc j - i) pattern =
        take (i + length pattern - Suc j) (drop (Suc j) doc))"
      using Suc.hyps(2) Suc.prems lt by (intro Suc.hyps(1)) simp_all
    finally show ?thesis using True by (simp add: dp td)
  next
    case False
    have "rk_verify pattern doc (length pattern) i j = Inr False"
      using lt False by (subst rk_verify.simps) (simp add: rd)
    then show ?thesis using False by (simp add: dp td)
  qed
qed

lemma rk_verify_window:
  assumes "i + length pattern \<le> length doc"
  shows "rk_verify pattern doc (length pattern) i i =
    Inr (take (length pattern) (drop i doc) = pattern)"
proof -
  have "rk_verify pattern doc (length pattern) i i =
      Inr (drop (i - i) pattern = take (i + length pattern - i) (drop i doc))"
    using assms by (intro rk_verify_value) simp_all
  then show ?thesis by (simp add: eq_commute)
qed

lemma naive_equals_value:
  assumes "i + length pattern \<le> length doc" "j \<le> length pattern"
  shows "naive_equals pattern doc (length pattern) i j =
    Inr (drop j pattern = take (length pattern - j) (drop (i + j) doc))"
  using assms(2)
proof (induction "length pattern - j" arbitrary: j)
  case 0
  then have "j = length pattern" by simp
  then show ?case by (subst naive_equals.simps) simp
next
  case (Suc d)
  then have jp: "j < length pattern" by simp
  then have jd: "i + j < length doc" using assms(1) by simp
  have rd: "c_read pattern j = Some (pattern ! j)" "c_read doc (i + j) = Some (doc ! (i + j))"
    using jp jd by (simp_all add: c_read_in)
  have dp: "drop j pattern = pattern ! j # drop (Suc j) pattern"
    using jp by (simp add: Cons_nth_drop_Suc)
  have td: "take (length pattern - j) (drop (i + j) doc) =
      doc ! (i + j) # take (length pattern - Suc j) (drop (i + Suc j) doc)"
  proof -
    have "length pattern - j = Suc (length pattern - Suc j)" using jp by simp
    moreover have "drop (i + j) doc = doc ! (i + j) # drop (Suc (i + j)) doc"
      using jd by (simp add: Cons_nth_drop_Suc)
    ultimately show ?thesis by simp
  qed
  show ?case
  proof (cases "pattern ! j = doc ! (i + j)")
    case True
    have "naive_equals pattern doc (length pattern) i j =
        naive_equals pattern doc (length pattern) i (Suc j)"
      using jp True by (subst naive_equals.simps) (simp add: rd)
    also have "\<dots> = Inr (drop (Suc j) pattern =
        take (length pattern - Suc j) (drop (i + Suc j) doc))"
      using Suc.hyps(2) jp by (intro Suc.hyps(1)) simp_all
    finally show ?thesis using True by (simp add: dp td)
  next
    case False
    have "naive_equals pattern doc (length pattern) i j = Inr False"
      using jp False by (subst naive_equals.simps) (simp add: rd)
    then show ?thesis using False by (simp add: dp td)
  qed
qed

lemma naive_equals_window:
  assumes "i + length pattern \<le> length doc"
  shows "naive_equals pattern doc (length pattern) i 0 =
    Inr (take (length pattern) (drop i doc) = pattern)"
proof -
  have "naive_equals pattern doc (length pattern) i 0 =
      Inr (drop 0 pattern = take (length pattern - 0) (drop (i + 0) doc))"
    using assms by (intro naive_equals_value) simp_all
  then show ?thesis by (simp add: eq_commute)
qed

lemma size_t_sub_le:
  assumes "m \<le> n" "n < 2 ^ 31"
  shows "size_t_sub n m = n - m"
proof -
  have "n < 2147483648" using assms by simp
  then have b: "int (n - m) < 18446744073709551616" by linarith
  have e: "int n - int m = int (n - m)" using assms(1) by linarith
  have "int (n - m) mod 18446744073709551616 = int (n - m)"
    using b by (intro mod_pos_pos_trivial) simp_all
  then have "nat ((int n - int m) mod 18446744073709551616) = n - m"
    by (simp only: e nat_int)
  then show ?thesis by (simp add: size_t_sub_def)
qed

lemma size_t_sub_wraps:
  assumes "n < m" "m < 2 ^ 31"
  shows "0 < size_t_sub n m"
proof -
  let ?x = "int n - int m"
  have "m < 2147483648" using assms by simp
  then have lo: "0 \<le> ?x + 18446744073709551616" and hi: "?x + 18446744073709551616 < 18446744073709551616"
    using assms(1) by linarith+
  have "?x mod 18446744073709551616 = (?x + 18446744073709551616) mod 18446744073709551616"
    by (simp only: mod_add_self2)
  also have "\<dots> = ?x + 18446744073709551616"
    using lo hi by (rule mod_pos_pos_trivial)
  finally have "?x mod 18446744073709551616 = ?x + 18446744073709551616" .
  moreover have "0 < ?x + 18446744073709551616"
    using \<open>m < 2147483648\<close> by linarith
  ultimately have "0 < ?x mod 18446744073709551616" by simp
  then show ?thesis by (simp add: size_t_sub_def)
qed

text \<open>
  The scanning loop of \<open>rk_substring_match\<close>, entered at \<open>i\<close> with the hash of window
  \<open>i\<close>: it counts the windows from \<open>i\<close> up to, but not including, the last one that
  equal the pattern, and leaves the index of the last of them.
\<close>

lemma rk_loop_value:
  fixes pattern doc :: string
  defines "M \<equiv> \<lambda>i. take (length pattern) (drop i doc) = pattern"
  assumes "plain_bytes sg doc" "length pattern \<le> length doc" "length doc < 2 ^ 31"
    and ph: "\<And>i. i + length pattern \<le> length doc \<Longrightarrow> M i \<Longrightarrow> ph = horner_hash pattern"
    and "i \<le> length doc - length pattern"
  shows "rk_loop sg pattern doc (length pattern) (256 ^ length pattern mod PRIME) ph i
      (horner_hash (take (length pattern) (drop i doc))) cnt fmi =
    Inr (cnt + length (filter M [i..<length doc - length pattern]),
         if filter M [i..<length doc - length pattern] = [] then fmi
         else int (last (filter M [i..<length doc - length pattern])))"
  using assms(6)
proof (induction "length doc - length pattern - i" arbitrary: i cnt fmi)
  case 0
  then have "i = length doc - length pattern" by simp
  then have "\<not> i < size_t_sub (length doc) (length pattern)"
    using assms(3,4) by (simp add: size_t_sub_le)
  then show ?case
    using \<open>i = length doc - length pattern\<close> by (subst rk_loop.simps) simp
next
  case (Suc d)
  let ?m = "length pattern" and ?n = "length doc"
  let ?H = "\<lambda>j. horner_hash (take ?m (drop j doc))"
  let ?h = "256 ^ ?m mod PRIME"
  from Suc have lt: "i < ?n - ?m" by simp
  then have im: "i + ?m < ?n" by simp
  have cond: "i < size_t_sub ?n ?m"
    using lt assms(3,4) by (simp add: size_t_sub_le)
  have ver: "(if ?H i = ph then rk_verify pattern doc ?m i i else Inr False) = Inr (M i)"
  proof (cases "M i")
    case True
    have "i + length pattern \<le> length doc" using im by simp
    then have "ph = horner_hash pattern" using True by (rule ph)
    moreover have "?H i = horner_hash pattern" using True by (simp add: M_def)
    ultimately show ?thesis using im True by (simp add: rk_verify_window M_def)
  next
    case False
    then show ?thesis using im by (simp add: rk_verify_window M_def)
  qed
  have rd: "c_read doc i = Some (doc ! i)" "c_read doc (i + ?m) = Some (doc ! (i + ?m))"
    using im by (simp_all add: c_read_in)
  have nxt: "rkhash_next sg (?H i) ?h (doc ! i) (doc ! (i + ?m)) = ?H (Suc i)"
    using assms(2) im by (rule rkhash_next_window)
  have step: "rk_loop sg pattern doc ?m ?h ph i (?H i) cnt fmi =
      rk_loop sg pattern doc ?m ?h ph (Suc i) (?H (Suc i))
        (if M i then cnt + 1 else cnt) (if M i then int i else fmi)"
    using cond by (subst rk_loop.simps) (simp add: ver rd nxt)
  have up: "[i..<?n - ?m] = i # [Suc i..<?n - ?m]"
    using lt by (rule upt_conv_Cons)
  have "rk_loop sg pattern doc ?m ?h ph (Suc i) (?H (Suc i))
        (if M i then cnt + 1 else cnt) (if M i then int i else fmi) =
      Inr ((if M i then cnt + 1 else cnt) + length (filter M [Suc i..<?n - ?m]),
           if filter M [Suc i..<?n - ?m] = [] then (if M i then int i else fmi)
           else int (last (filter M [Suc i..<?n - ?m])))"
    using Suc.hyps(2) lt by (intro Suc.hyps(1)) simp_all
  also have "\<dots> = Inr (cnt + length (filter M [i..<?n - ?m]),
      if filter M [i..<?n - ?m] = [] then fmi else int (last (filter M [i..<?n - ?m])))"
    unfolding up by simp
  finally show ?case using step by simp
qed

text \<open>
  The loop of \<open>naive_substring_match\<close> counts the same windows and stores the index of
  the first of them, provided nothing was counted before.
\<close>

lemma naive_loop_value:
  fixes pattern doc :: string
  defines "M \<equiv> \<lambda>i. take (length pattern) (drop i doc) = pattern"
  assumes "i \<le> length doc - length pattern"
  shows "naive_loop pattern doc (length pattern) i cnt fmi =
    Inr (cnt + length (filter M [i..<length doc - length pattern]),
         if cnt = 0 \<and> filter M [i..<length doc - length pattern] \<noteq> []
         then int (hd (filter M [i..<length doc - length pattern])) else fmi)"
  using assms(2)
proof (induction "length doc - length pattern - i" arbitrary: i cnt fmi)
  case 0
  then have "i = length doc - length pattern" by simp
  then have "\<not> int i < int (length doc) - int (length pattern)" by linarith
  then show ?case
    using \<open>i = length doc - length pattern\<close> by (subst naive_loop.simps) simp
next
  case (Suc d)
  let ?m = "length pattern" and ?n = "length doc"
  from Suc have lt: "i < ?n - ?m" by simp
  then have im: "i + ?m < ?n" by simp
  have cond: "int i < int ?n - int ?m" using lt by linarith
  have eq: "naive_equals pattern doc ?m i 0 = Inr (M i)"
    using im by (simp add: naive_equals_window M_def)
  have step: "naive_loop pattern doc ?m i cnt fmi =
      naive_loop pattern doc ?m (Suc i) (if M i then cnt + 1 else cnt)
        (if M i \<and> cnt = 0 then int i else fmi)"
    using cond by (subst naive_loop.simps) (simp add: eq)
  have up: "[i..<?n - ?m] = i # [Suc i..<?n - ?m]"
    using lt by (rule upt_conv_Cons)
  have "naive_loop pattern doc ?m (Suc i) (if M i then cnt + 1 else cnt)
        (if M i \<and> cnt = 0 then int i else fmi) =
      Inr ((if M i then cnt + 1 else cnt) + length (filter M [Suc i..<?n - ?m]),
           if (if M i then cnt + 1 else cnt) = 0 \<and> filter M [Suc i..<?n - ?m] \<noteq> []
           then int (hd (filter M [Suc i..<?n - ?m]))
           else (if M i \<and> cnt = 0 then int i else fmi))"
    using Suc.hyps(2) lt by (intro Suc.hyps(1)) simp_all
  also have "\<dots> = Inr (cnt + length (filter M [i..<?n - ?m]),
      if cnt = 0 \<and> filter M [i..<?n - ?m] \<noteq> [] then int (hd (filter M [i..<?n - ?m])) else fmi)"
    unfolding up by simp
  finally show ?case using step by simp
qed

text \<open>
  The two matchers on a document at least as long as the pattern: the same count, over
  the windows before the last one; the Rabin-Karp matcher leaves the last matching
  index, the naive scanner the first.
\<close>

lemma rk_substring_match_value:
  fixes pattern doc :: string
  defines "F \<equiv> filter (\<lambda>i. take (length pattern) (drop i doc) = pattern)
    [0..<length doc - length pattern]"
  assumes "plain_bytes sg doc" "length pattern \<le> length doc" "length doc < 2 ^ 31"
  shows "rk_substring_match sg pattern doc fmi =
    Inr (length F, if F = [] then fmi else int (last F))"
proof -
  let ?m = "length pattern"
  have init_doc: "rkhash_init sg doc ?m =
      Inr (horner_hash (take ?m (drop 0 doc)), 256 ^ ?m mod PRIME)"
    using assms(2,3) by (simp add: rkhash_init_value)
  obtain ph g where init_pat: "rkhash_init sg pattern ?m = Inr (ph, g)"
    using rkhash_init_total [of ?m pattern sg] by auto
  have ph: "ph = horner_hash pattern"
    if "i + ?m \<le> length doc" "take ?m (drop i doc) = pattern" for i
  proof -
    have "plain_bytes sg pattern"
      using assms(2) that(2) plain_bytes_take plain_bytes_drop by metis
    then have "rkhash_init sg pattern ?m = Inr (horner_hash (take ?m pattern), 256 ^ ?m mod PRIME)"
      by (intro rkhash_init_value) simp_all
    with init_pat show ?thesis by simp
  qed
  have "rk_loop sg pattern doc ?m (256 ^ ?m mod PRIME) ph 0
      (horner_hash (take ?m (drop 0 doc))) 0 fmi =
    Inr (0 + length F, if F = [] then fmi else int (last F))"
    unfolding F_def using assms(2,3,4) ph by (intro rk_loop_value) simp_all
  then show ?thesis
    by (simp add: rk_substring_match_def init_doc init_pat)
qed

lemma naive_substring_match_value:
  fixes pattern doc :: string
  defines "F \<equiv> filter (\<lambda>i. take (length pattern) (drop i doc) = pattern)
    [0..<length doc - length pattern]"
  shows "naive_substring_match pattern doc fmi =
    Inr (length F, if F = [] then fmi else int (hd F))"
proof -
  have "naive_loop pattern doc (length pattern) 0 0 fmi =
    Inr (0 + length F, if 0 = (0::nat) \<and> F \<noteq> [] then int (hd F) else fmi)"
    unfolding F_def by (intro naive_loop_value) simp
  then show ?thesis by (simp add: naive_substring_match_def)
qed

text \<open>A pattern longer than the document sends \<open>rk_substring_match\<close> out of bounds.\<close>

lemma rk_substring_match_short_doc:
  assumes "length doc < length pattern" "length pattern < 2 ^ 31"
  shows "rk_substring_match sg pattern doc fmi = Inl Out_Of_Bounds"
proof (cases "Suc (length doc) < length pattern")
  case True
  then show ?thesis by (simp add: rk_substring_match_def rkhash_init_beyond)
next
  case False
  with assms(1) have m: "length pattern = Suc (length doc)" by simp
  obtain c h where init_doc: "rkhash_init sg doc (length pattern) = Inr (c, h)"
    using rkhash_init_total [of "length pattern" doc sg] m by auto
  obtain ph g where init_pat: "rkhash_init sg pattern (length pattern) = Inr (ph, g)"
    using rkhash_init_total [of "length pattern" pattern sg] by auto
  have cond: "0 < size_t_sub (length doc) (length pattern)"
    using assms by (rule size_t_sub_wraps)
  have rd: "c_read doc (length pattern) = None" by (simp add: c_read_def m)
  have "rk_loop sg pattern doc (length pattern) h ph 0 c 0 fmi = Inl Out_Of_Bounds"
    using cond by (subst rk_loop.simps) (simp add: rd fault_eq split: sum.splits option.splits)
  then show ?thesis by (simp add: rk_substring_match_def init_doc init_pat)
qed

section \<open>The claims\<close>

text \<open>
  C8, as stated: for all \<open>a\<close>, \<open>b\<close> in \<open>[0, PRIME)\<close>, also for \<open>a = b\<close>, \<open>msub a b\<close> is
  \<open>(a - b) mod PRIME\<close>, below \<open>PRIME\<close>. The code tests \<open>a > b\<close>, so equal arguments take
  the branch that adds \<open>PRIME\<close>: \<open>msub a a\<close> is \<open>PRIME\<close> itself, not 0.
\<close>

theorem msub_equal_arguments: "msub a a = PRIME \<and> \<not> msub a a < PRIME \<and> (a - a) mod PRIME = 0"
  by (simp add: msub_def)

text \<open>
  C3, as stated: the scan reaches start index \<open>len(doc) - m\<close>, so that
  \<open>exact_match("abc", "abc")\<close> is \<open>(1, 0)\<close>. The loop condition is
  \<open>i < strlen(doc) - m\<close>: the last window is never compared. On \<open>"abc"\<close> in \<open>"abc"\<close>
  the loop body does not run; the count is 0 and \<open>*first_match_ind\<close> is untouched.
\<close>

theorem rk_substring_match_abc_abc: "rk_substring_match sg ''abc'' ''abc'' fmi = Inr (0, fmi)"
  by (simp add: rk_unfold)

text \<open>
  C4, as stated: \<open>*first_match_ind\<close> holds the smallest matching index, and \<open>"ab"\<close> in
  \<open>"ababab"\<close> gives count 3 and first index 0. The assignment \<open>*first_match_ind = i\<close> runs
  at every match, so the index of the last match found remains; and the match at index 4
  is the last window, which the loop does not reach. The code returns count 2 and
  index 2.
\<close>

theorem rk_substring_match_ab_ababab: "rk_substring_match sg ''ab'' ''ababab'' fmi = Inr (2, 2)"
  by (simp add: rk_unfold)

text \<open>
  C9, as stated: a pattern longer than the document gives count 0 at once, as in
  \<open>exact_match("x", "")\<close>. The bound \<open>strlen(doc) - m\<close> is computed on \<open>size_t\<close> and
  wraps to \<open>2 ^ 64 - 1\<close>; the loop body runs and \<open>rkhash_next\<close> is handed \<open>doc[1]\<close>, one
  byte past the terminator.
\<close>

theorem rk_substring_match_x_empty: "rk_substring_match sg ''x'' '''' fmi = Inl Out_Of_Bounds"
  by (simp add: rk_unfold)

text \<open>
  C1, as stated: \<open>rk_substring_match\<close> and \<open>naive_substring_match\<close> return the same count
  and leave the same \<open>*first_match_ind\<close>. On \<open>"ab"\<close> in \<open>"ababx"\<close> both count 2, but the
  naive scanner stores the first match, 0, and the Rabin-Karp matcher, which assigns at
  every match, ends with the last one, 2.
\<close>

theorem rk_and_naive_ab_ababx:
  "naive_substring_match ''ab'' ''ababx'' fmi = Inr (2, 0) \<and>
   rk_substring_match sg ''ab'' ''ababx'' fmi = Inr (2, 2)"
  by (simp add: rk_unfold)

text \<open>
  C2, as stated: \<open>rk_substring_match_using_bloom\<close> returns what \<open>rk_substring_match\<close>
  returns. When the query is positive the function calls \<open>rk_substring_match\<close> and
  drops its result: control reaches the end of the function with no \<open>return\<close>. On
  \<open>"ab"\<close> in \<open>"abab"\<close>, with the filter built from the document, the exact matcher returns
  1 and the filtered one returns no value.
\<close>

theorem using_bloom_ab_abab:
  "rk_create_doc_bloom sg (length ''ab'') ''abab'' bloom_size = Inr [24930, 25185, 24930] \<and>
   rk_substring_match sg ''ab'' ''abab'' fmi = Inr (1, 0) \<and>
   rk_substring_match_using_bloom fp sg ''ab'' ''abab'' [24930, 25185, 24930] fmi = Inr (None, 0)"
proof -
  have init_doc: "rkhash_init sg ''abab'' (length ''ab'') = Inr (24930, 65536)"
    by (simp add: rk_unfold)
  have init_pat: "rkhash_init sg ''ab'' (length ''ab'') = Inr (24930, 65536)"
    by (simp add: rk_unfold)
  have loop: "bloom_loop sg ''abab'' (length ''ab'') 65536 0 24930 [] = Inr [24930, 25185, 24930]"
    by (simp add: rk_unfold bloom_loop.simps bloom_add_def)
  have build: "rk_create_doc_bloom sg (length ''ab'') ''abab'' bloom_size = Inr [24930, 25185, 24930]"
    by (simp only: rk_create_doc_bloom_def init_doc bloom_init_def loop sum.case prod.case)
  have exact: "rk_substring_match sg ''ab'' ''abab'' fmi = Inr (1, 0)"
    by (simp add: rk_unfold)
  have query: "bloom_query fp [24930, 25185, 24930] 24930"
    by (simp add: bloom_query_def)
  have "rk_substring_match_using_bloom fp sg ''ab'' ''abab'' [24930, 25185, 24930] fmi = Inr (None, 0)"
    by (simp only: rk_substring_match_using_bloom_def init_pat query exact sum.case prod.case if_True)
  with build exact show ?thesis by simp
qed







text \<open>
  C10: for the empty pattern and a document whose length fits an \<open>int\<close>,
  \<open>rk_substring_match\<close> returns normally: every start index below \<open>len(doc)\<close> passes the
  hash comparison and the empty verification loop, the count is \<open>len(doc)\<close>, and for a
  non-empty document \<open>*first_match_ind\<close> ends as \<open>len(doc) - 1\<close> (for the empty document it
  keeps its value).
\<close>

theorem rk_substring_match_empty_pattern:
  assumes "length doc < 2 ^ 31"
  shows "rk_substring_match sg [] doc fmi =
    Inr (length doc, if doc = [] then fmi else int (length doc) - 1)"
proof -
  have "rk_loop sg [] doc 0 1 0 0 0 0 fmi =
      Inr (0 + (length doc - 0), if 0 < length doc then int (length doc) - 1 else fmi)"
    using assms by (intro rk_loop_empty_pattern) simp_all
  then show ?thesis
    by (simp add: rk_substring_match_def rkhash_init_def)
qed

theorem rk_substring_match_empty_pattern_witness:
  "length ''hello'' < 2 ^ 31 \<and> rk_substring_match True [] ''hello'' (- 1) = Inr (5, 4)"
proof -
  have h: "length ''hello'' < 2 ^ 31" by simp
  from rk_substring_match_empty_pattern [OF h, of True "- 1"]
  have "rk_substring_match True [] ''hello'' (- 1) = Inr (5, 4)" by simp
  with h show ?thesis by (intro conjI)
qed




end
